theory Spec2Isabelle
  imports Main
begin

unbundle bit_operations_syntax

section \<open>Python values used by the source\<close>

text \<open>
  The source works on Python \<open>str\<close> values holding the characters \<open>'0'\<close> and \<open>'1'\<close>;
  they are modelled as \<open>string\<close>. Python integers are unbounded and are modelled as
  \<open>int\<close>; list and string lengths are \<open>nat\<close>. A raised exception is the \<open>Inl\<close> of a sum.
\<close>

datatype error = ValueError | ZeroDivisionError | IndexError

definition is_bits :: "string \<Rightarrow> bool" where
  "is_bits s = list_all (\<lambda>c. c = CHR ''0'' \<or> c = CHR ''1'') s"

section \<open>Python built-ins used by the source\<close>

text \<open>
  \<open>int(word, 2)\<close>. On a non-empty string of \<open>'0'\<close> and \<open>'1'\<close> it is the value of the
  string read in binary, most significant bit first; on the empty string it raises
  \<open>ValueError\<close>. A string with any other character is rejected here as well (Python would
  still accept a sign, surrounding whitespace, underscores between digits and a \<open>0b\<close>
  prefix: such strings are no bit strings, and every theorem below is about bit strings).
\<close>

definition bits_value :: "string \<Rightarrow> int" where
  "bits_value s = foldl (\<lambda>acc c. 2 * acc + (if c = CHR ''1'' then 1 else 0)) 0 s"

definition int_base2 :: "string \<Rightarrow> error + int" where
  "int_base2 s = (if s \<noteq> [] \<and> is_bits s then Inr (bits_value s) else Inl ValueError)"

text \<open>
  \<open>bin(n)[2:]\<close> and the digits of \<open>format(n, 'b')\<close> for \<open>n \<ge> 0\<close>: the binary digits of
  \<open>n\<close> without leading zeros, \<open>"0"\<close> for 0. It is applied to non-negative values only.
\<close>

function bin_digits :: "int \<Rightarrow> string" where
  "bin_digits n =
     (if n < 2 then [if n = 1 then CHR ''1'' else CHR ''0'']
      else bin_digits (n div 2) @ [if n mod 2 = 1 then CHR ''1'' else CHR ''0''])"
  by pat_completeness auto
termination
  by (relation "measure nat") auto

declare bin_digits.simps [simp del]

text \<open>
  \<open>format(v, '0<width>b')\<close>: binary digits, padded on the left with zeros up to
  \<open>width\<close> characters; a negative value keeps its sign in front of the zeros.
\<close>

definition format_0b :: "int \<Rightarrow> nat \<Rightarrow> string" where
  "format_0b v width =
     (if v < 0
      then CHR ''-'' # replicate (width - 1 - length (bin_digits (- v))) CHR ''0''
             @ bin_digits (- v)
      else replicate (width - length (bin_digits v)) CHR ''0'' @ bin_digits v)"

text \<open>
  Slices \<open>xs[a:b]\<close>, \<open>xs[:b]\<close> and \<open>xs[a:]\<close>: a negative bound counts from the end, and
  every bound is clamped to the length, so that a slice never raises.
\<close>

definition py_bound :: "nat \<Rightarrow> int \<Rightarrow> nat" where
  "py_bound len k = (if k < 0 then nat (int len + k) else min len (nat k))"

definition py_slice :: "'a list \<Rightarrow> int \<Rightarrow> int \<Rightarrow> 'a list" where
  "py_slice xs a b =
     (let lo = py_bound (length xs) a; hi = py_bound (length xs) b
      in take (hi - lo) (drop lo xs))"

definition py_slice_to :: "'a list \<Rightarrow> int \<Rightarrow> 'a list" where
  "py_slice_to xs b = take (py_bound (length xs) b) xs"

definition py_slice_from :: "'a list \<Rightarrow> int \<Rightarrow> 'a list" where
  "py_slice_from xs a = drop (py_bound (length xs) a) xs"

text \<open>
  \<open>int(c)\<close> for a one-character string, as \<open>map(int, ...)\<close> applies it to the characters
  of a string: a decimal digit gives its value, any other character raises \<open>ValueError\<close>.
\<close>

definition int_digit :: "char \<Rightarrow> error + int" where
  "int_digit c =
     (let k = (of_char c :: nat)
      in if 48 \<le> k \<and> k \<le> 57 then Inr (int k - 48) else Inl ValueError)"

fun int_list :: "string \<Rightarrow> error + int list" where
  "int_list [] = Inr []"
| "int_list (c # cs) =
     (case int_digit c of
        Inl e \<Rightarrow> Inl e
      | Inr d \<Rightarrow> (case int_list cs of Inl e \<Rightarrow> Inl e | Inr ds \<Rightarrow> Inr (d # ds)))"

text \<open>
  \<open>str(v)\<close> for an integer: its decimal digits (\<open>dec_digits\<close>, for \<open>v \<ge> 0\<close>), after a
  minus sign when negative.
\<close>

function dec_digits :: "int \<Rightarrow> string" where
  "dec_digits n =
     (if n < 10 then [char_of (48 + n)]
      else dec_digits (n div 10) @ [char_of (48 + n mod 10)])"
  by pat_completeness auto
termination
  by (relation "measure nat") auto

declare dec_digits.simps [simp del]

definition py_str :: "int \<Rightarrow> string" where
  "py_str v = (if v < 0 then CHR ''-'' # dec_digits (- v) else dec_digits v)"

text \<open>
  \<open>s.zfill(width)\<close>: zeros on the left up to \<open>width\<close> characters, after a leading sign
  when there is one; a string that is long enough is returned as it is.
\<close>

definition zfill :: "string \<Rightarrow> nat \<Rightarrow> string" where
  "zfill s width =
     (if width \<le> length s then s
      else case s of
             [] \<Rightarrow> replicate width CHR ''0''
           | c # cs \<Rightarrow>
               if c = CHR ''+'' \<or> c = CHR ''-''
               then c # replicate (width - length s) CHR ''0'' @ cs
               else replicate (width - length s) CHR ''0'' @ s)"

section \<open>Even parity (\<open>CamadaEnlace/deteccao_erros.py\<close>, lines 12 to 24)\<close>

text \<open>\<open>str.count('1')\<close> of a one-character pattern is the number of such characters.\<close>

definition add_even_parity :: "string \<Rightarrow> string" where
  "add_even_parity bit_chunk =
     bit_chunk @ (if count_list bit_chunk CHR ''1'' mod 2 \<noteq> 0 then ''1'' else ''0'')"

definition check_even_parity :: "string \<Rightarrow> bool" where
  "check_even_parity chunk_with_parity = (count_list chunk_with_parity CHR ''1'' mod 2 = 0)"

text \<open>
  Inverting the bit at index \<open>i\<close> of a string: \<open>'1'\<close> becomes \<open>'0'\<close> and any other
  character becomes \<open>'1'\<close>. On a bit string this is the single-bit flip of the channel.
\<close>

definition flip_at :: "string \<Rightarrow> nat \<Rightarrow> string" where
  "flip_at s i = s[i := (if s ! i = CHR ''1'' then CHR ''0'' else CHR ''1'')]"

section \<open>Checksum (\<open>CamadaEnlace/deteccao_erros.py\<close>, lines 70 to 190)\<close>

text \<open>
  The loop \<open>for i in range(num_words): total += int(data_bits[start:end], 2)\<close>, over the
  list of its indices. The first word that is no binary literal raises.
\<close>

fun sum_words :: "string \<Rightarrow> int \<Rightarrow> nat list \<Rightarrow> int \<Rightarrow> error + int" where
  "sum_words data_bits checksum_bits [] tot = Inr tot"
| "sum_words data_bits checksum_bits (i # rest) tot =
     (let start = int i * checksum_bits;
          end' = start + checksum_bits;
          word = py_slice data_bits start end'
      in case int_base2 word of
           Inl e \<Rightarrow> Inl e
         | Inr v \<Rightarrow> sum_words data_bits checksum_bits rest (tot + v))"

text \<open>One round of the end-around carry makes a sum that exceeds \<open>max_value\<close> smaller.\<close>

lemma and_max_value: "(t::int) AND (push_bit w 1 - 1) = t mod 2 ^ w"
  by (simp add: push_bit_eq_mult flip: mask_eq_exp_minus_1 take_bit_eq_mask take_bit_eq_mod)

lemma fold_step_less:
  assumes "0 < w" and "(push_bit w 1 - 1 :: int) < t"
  shows "(t AND (push_bit w 1 - 1)) + drop_bit w t < t"
proof -
  have p: "(2::int) \<le> 2 ^ w" using assms(1) by (cases w) auto
  have ge: "(2::int) ^ w \<le> t" using assms(2) by (simp add: push_bit_eq_mult)
  then have "0 < t div 2 ^ w"
    by (simp add: pos_imp_zdiv_pos_iff)
  then have q: "1 \<le> t div 2 ^ w" by simp
  have "t div 2 ^ w < 2 ^ w * (t div 2 ^ w)"
  proof -
    have "2 * (t div 2 ^ w) \<le> 2 ^ w * (t div 2 ^ w)"
      using p q by (intro mult_right_mono) auto
    then show ?thesis using q by linarith
  qed
  moreover have "t = 2 ^ w * (t div 2 ^ w) + t mod 2 ^ w" by simp
  moreover have "drop_bit w t = t div 2 ^ w" by (simp add: drop_bit_eq_div)
  ultimately show ?thesis
    unfolding and_max_value by linarith
qed

text \<open>
  The loop \<open>while total > max_value: carry = total >> checksum_bits;
  total = (total & max_value) + carry\<close> with \<open>max_value = (1 << checksum_bits) - 1\<close>.
  Both callers reach it with \<open>checksum_bits \<ge> 1\<close> only: a width of 0 has raised at
  \<open>len(data_bits) % checksum_bits\<close> and a negative one at \<open>1 << checksum_bits\<close>. The
  conjunct \<open>0 < checksum_bits\<close> stands for that and makes the function total.
\<close>

function fold_carry :: "nat \<Rightarrow> int \<Rightarrow> int" where
  "fold_carry checksum_bits tot =
     (let max_value = push_bit checksum_bits 1 - 1
      in if 0 < checksum_bits \<and> tot > max_value
         then let carry = drop_bit checksum_bits tot
              in fold_carry checksum_bits ((tot AND max_value) + carry)
         else tot)"
  by pat_completeness auto

termination fold_carry
proof (relation "measure (\<lambda>(w, t). nat t)")
  show "wf (measure (\<lambda>(w, t). nat t))" by simp
next
  fix checksum_bits :: nat and tot max_value carry :: int
  assume m: "max_value = push_bit checksum_bits 1 - 1"
    and c: "0 < checksum_bits \<and> max_value < tot"
    and d: "carry = drop_bit checksum_bits tot"
  have "(tot AND max_value) + carry < tot"
    using fold_step_less [of checksum_bits tot] m c d by simp
  moreover have "0 \<le> max_value" unfolding m by (simp add: push_bit_eq_mult)
  ultimately show "((checksum_bits, (tot AND max_value) + carry), (checksum_bits, tot))
      \<in> measure (\<lambda>(w, t). nat t)"
    using c by simp
qed

declare fold_carry.simps [simp del]

text \<open>
  \<open>calculate_checksum\<close>. The statements run in the source's order: the modulo raises
  \<open>ZeroDivisionError\<close> for a width of 0; for a negative width the padding is empty
  (\<open>'0' * padding\<close> with \<open>padding < 0\<close>), \<open>num_words \<le> 0\<close> leaves the summing loop without
  an iteration, and \<open>1 << checksum_bits\<close> raises \<open>ValueError\<close> (negative shift count).
\<close>

definition calculate_checksum :: "string \<Rightarrow> int \<Rightarrow> error + string" where
  "calculate_checksum data_bits checksum_bits =
     (if checksum_bits = 0 then Inl ZeroDivisionError
      else
        let data_bits' =
              (if int (length data_bits) mod checksum_bits \<noteq> 0
               then let padding = checksum_bits - int (length data_bits) mod checksum_bits
                    in data_bits @ replicate (nat padding) CHR ''0''
               else data_bits);
            num_words = int (length data_bits') div checksum_bits
        in case sum_words data_bits' checksum_bits [0..<nat num_words] 0 of
             Inl e \<Rightarrow> Inl e
           | Inr tot \<Rightarrow>
               if checksum_bits < 0 then Inl ValueError
               else
                 let max_value = push_bit (nat checksum_bits) 1 - 1;
                     tot' = fold_carry (nat checksum_bits) tot;
                     checksum_value = (NOT tot') AND max_value
                 in Inr (format_0b checksum_value (nat checksum_bits)))"

definition add_checksum :: "string \<Rightarrow> int \<Rightarrow> error + string" where
  "add_checksum data_bits checksum_bits =
     (case calculate_checksum data_bits checksum_bits of
        Inl e \<Rightarrow> Inl e
      | Inr checksum \<Rightarrow> Inr (data_bits @ checksum))"

text \<open>
  \<open>verify_checksum\<close>. The recomputed checksum is not used by the source after it is
  computed; the call is kept because it is where a bad width or a bad word raises. Once
  it has returned, \<open>checksum_bits \<ge> 1\<close>, so the shift and the division cannot raise.
\<close>

definition verify_checksum :: "string \<Rightarrow> int \<Rightarrow> error + bool" where
  "verify_checksum data_with_checksum checksum_bits =
     (let data_bits = py_slice_to data_with_checksum (- checksum_bits);
          received_checksum = py_slice_from data_with_checksum (- checksum_bits)
      in case calculate_checksum data_bits checksum_bits of
           Inl e \<Rightarrow> Inl e
         | Inr calculated_checksum \<Rightarrow>
             let all_bits = data_with_checksum;
                 num_words = int (length all_bits) div checksum_bits
             in (case sum_words all_bits checksum_bits [0..<nat num_words] 0 of
                   Inl e \<Rightarrow> Inl e
                 | Inr tot \<Rightarrow> Inr (fold_carry (nat checksum_bits) tot = 0)))"

definition verify_checksum_simple :: "string \<Rightarrow> int \<Rightarrow> error + bool \<times> string \<times> string" where
  "verify_checksum_simple data_with_checksum checksum_bits =
     (let data_bits = py_slice_to data_with_checksum (- checksum_bits);
          received_checksum = py_slice_from data_with_checksum (- checksum_bits)
      in case calculate_checksum data_bits checksum_bits of
           Inl e \<Rightarrow> Inl e
         | Inr calculated_checksum \<Rightarrow>
             let is_valid = (calculated_checksum = received_checksum)
             in Inr (is_valid, calculated_checksum, received_checksum))"

section \<open>CRC-32 (\<open>CamadaEnlace/deteccao_erros.py\<close>, lines 7 to 68)\<close>

definition CRC32_POLY :: int where
  "CRC32_POLY = 0x104C11DB7"

text \<open>
  The inner loop \<open>for j in range(n): data[i + j] ^= poly[j]\<close>. The outer loop calls it
  with \<open>i \<le> len(data) - n\<close>, so every index \<open>i + j\<close> is in range.
\<close>

definition xor_window :: "int list \<Rightarrow> int list \<Rightarrow> nat \<Rightarrow> int list" where
  "xor_window data poly i =
     foldl (\<lambda>d j. d[i + j := d ! (i + j) XOR poly ! j]) data [0..<length poly]"

text \<open>
  The outer loop \<open>for i in range(len(data) - n + 1)\<close>, over the list of its indices.
  Reading \<open>data[i]\<close> raises \<open>IndexError\<close> at \<open>i = len(data)\<close>, which the range reaches
  only for an empty polynomial.
\<close>

fun crc_scan :: "int list \<Rightarrow> int list \<Rightarrow> nat list \<Rightarrow> error + int list" where
  "crc_scan poly data [] = Inr data"
| "crc_scan poly data (i # rest) =
     (if i < length data
      then crc_scan poly (if data ! i = 1 then xor_window data poly i else data) rest
      else Inl IndexError)"

text \<open>The indices of the outer loop: \<open>range(m - n + 1)\<close>, empty when \<open>m - n + 1 \<le> 0\<close>.\<close>

definition crc_scan_range :: "nat \<Rightarrow> nat \<Rightarrow> nat list" where
  "crc_scan_range m n = [0..<nat (int m - int n + 1)]"

definition crc_division_engine :: "string \<Rightarrow> string \<Rightarrow> error + string" where
  "crc_division_engine data_bits_str poly_bits_str =
     (case int_list poly_bits_str of
        Inl e \<Rightarrow> Inl e
      | Inr poly \<Rightarrow>
          (case int_list data_bits_str of
             Inl e \<Rightarrow> Inl e
           | Inr data \<Rightarrow>
               let n = length poly
               in (case crc_scan poly data (crc_scan_range (length data) n) of
                     Inl e \<Rightarrow> Inl e
                   | Inr data' \<Rightarrow>
                       Inr (concat (map py_str (py_slice_from data' (- (int n - 1))))))))"

definition generate_crc :: "string \<Rightarrow> error + string" where
  "generate_crc data_bits =
     (let poly_bits = bin_digits CRC32_POLY;
          num_poly_bits = length poly_bits;
          padded_data = data_bits @ replicate (num_poly_bits - 1) CHR ''0''
      in case crc_division_engine padded_data poly_bits of
           Inl e \<Rightarrow> Inl e
         | Inr remainder \<Rightarrow> Inr (zfill remainder (num_poly_bits - 1)))"

definition check_crc :: "string \<Rightarrow> error + int" where
  "check_crc frame_with_crc =
     (let poly_bits = bin_digits CRC32_POLY
      in case crc_division_engine frame_with_crc poly_bits of
           Inl e \<Rightarrow> Inl e
         | Inr remainder_str \<Rightarrow> int_base2 remainder_str)"

section \<open>Bits to text (\<open>Utilidades/utils.py\<close>, lines 17 to 35)\<close>

text \<open>
  The generator \<open>chr(int(char, 2)) for char in chars if int(char, 2) != 0\<close>. Every group
  of \<open>binary_to_text\<close> has 8 characters, so its value is below 256 and \<open>chr\<close> of it is a
  \<open>char\<close>.
\<close>

fun decode_chars :: "string list \<Rightarrow> error + string" where
  "decode_chars [] = Inr []"
| "decode_chars (c # rest) =
     (case int_base2 c of
        Inl e \<Rightarrow> Inl e
      | Inr v \<Rightarrow>
          if v \<noteq> 0
          then (case decode_chars rest of
                  Inl e \<Rightarrow> Inl e
                | Inr text \<Rightarrow> Inr (char_of (nat v) # text))
          else decode_chars rest)"

text \<open>\<open>range(0, stop, 8)\<close>: the multiples of 8 below \<open>stop\<close>.\<close>

definition range8 :: "nat \<Rightarrow> nat list" where
  "range8 stop = map (\<lambda>k. 8 * k) [0..<(stop + 7) div 8]"

definition binary_to_text :: "string \<Rightarrow> error + string" where
  "binary_to_text binary_str =
     (let padding = length binary_str mod 8;
          binary_str' =
            (if padding \<noteq> 0
             then py_slice_to binary_str (int (length binary_str) - int padding)
             else binary_str);
          chars = map (\<lambda>i. py_slice binary_str' (int i) (int i + 8))
                      (range8 (length binary_str'))
      in decode_chars chars)"

section \<open>The decoding of bits to text, as the specification words it\<close>

text \<open>
  The specification describes \<open>binary_to_text\<close> in three steps, written here by
  recursion on the string instead of the source's indices and slices: drop the trailing
  group of fewer than 8 bits (\<open>whole_bytes\<close>), cut what is left into groups of 8
  (\<open>groups8\<close>), and give the character of every group whose value, read with the most
  significant bit first (\<open>msb_value\<close>), is not zero.
\<close>

definition whole_bytes :: "string \<Rightarrow> string" where
  "whole_bytes s = take (length s - length s mod 8) s"

fun groups8 :: "string \<Rightarrow> string list" where
  "groups8 s = (if s = [] then [] else take 8 s # groups8 (drop 8 s))"

declare groups8.simps [simp del]

fun msb_value :: "string \<Rightarrow> nat" where
  "msb_value [] = 0"
| "msb_value (c # cs) = (if c = CHR ''1'' then 2 ^ length cs else 0) + msb_value cs"

definition decode_groups :: "string \<Rightarrow> string" where
  "decode_groups s =
     map (\<lambda>g. char_of (msb_value g))
       (filter (\<lambda>g. msb_value g \<noteq> 0) (groups8 (whole_bytes s)))"

section \<open>Notions used in the proofs\<close>

text \<open>
  The value of a bit character and the character of a bit, lists of bits, and the
  element-wise exclusive or of two lists of the same length. The list \<open>poly_list\<close> is
  what the division engine gets from \<open>map(int, poly_bits_str)\<close> for the CRC-32
  polynomial.
\<close>

definition bit_of_char :: "char \<Rightarrow> int" where
  "bit_of_char c = (if c = CHR ''1'' then 1 else 0)"

definition char_of_bit :: "int \<Rightarrow> char" where
  "char_of_bit b = (if b = 1 then CHR ''1'' else CHR ''0'')"

definition bit_list :: "int list \<Rightarrow> bool" where
  "bit_list xs = list_all (\<lambda>x. x = 0 \<or> x = 1) xs"

definition lxor :: "int list \<Rightarrow> int list \<Rightarrow> int list" where
  "lxor xs ys = map2 (XOR) xs ys"

definition poly_list :: "int list" where
  "poly_list = map bit_of_char (bin_digits CRC32_POLY)"

section \<open>Parity: round trip and single-bit detection\<close>

lemma count_list_snoc: "count_list (xs @ [x]) y = count_list xs y + (if x = y then 1 else 0)"
  by (induction xs) auto

text \<open>
  Claim C5. For every string \<open>b\<close>, the empty one included, the parity check accepts
  what \<open>add_even_parity\<close> produced.
\<close>

theorem check_add_even_parity: "check_even_parity (add_even_parity b) = True"
  unfolding check_even_parity_def add_even_parity_def
  by (simp add: count_list_snoc) presburger

lemma count_list_update:
  "i < length s \<Longrightarrow>
   count_list (s[i := c]) x + (if s ! i = x then 1 else 0)
     = count_list s x + (if c = x then 1 else 0)"
proof (induction s arbitrary: i)
  case Nil
  then show ?case by simp
next
  case (Cons a s)
  show ?case
  proof (cases i)
    case 0
    then show ?thesis by simp
  next
    case (Suc k)
    then have "k < length s" using Cons.prems by simp
    from Cons.IH [OF this] show ?thesis using Suc by (auto split: if_splits)
  qed
qed

lemma count_add_even_parity: "count_list (add_even_parity b) CHR ''1'' mod 2 = 0"
  unfolding add_even_parity_def
  by (simp add: count_list_snoc) presburger

text \<open>
  Claim C6. For every string \<open>b\<close> and every position \<open>i\<close> of \<open>add_even_parity b\<close>,
  the parity bit included, inverting the bit at \<open>i\<close> makes \<open>check_even_parity\<close> return
  \<open>False\<close>: the number of \<open>'1'\<close> characters changes by exactly one.
\<close>

theorem flip_detected:
  assumes "i < length (add_even_parity b)"
  shows "check_even_parity (flip_at (add_even_parity b) i) = False"
proof -
  let ?s = "add_even_parity b"
  let ?c = "if ?s ! i = CHR ''1'' then CHR ''0'' else CHR ''1''"
  have "count_list (?s[i := ?c]) CHR ''1'' + (if ?s ! i = CHR ''1'' then 1 else 0)
      = count_list ?s CHR ''1'' + (if ?c = CHR ''1'' then 1 else 0)"
    using assms by (rule count_list_update)
  then have "count_list (?s[i := ?c]) CHR ''1'' mod 2 = 1"
    using count_add_even_parity [of b] by (auto split: if_splits) presburger+
  then show ?thesis
    by (simp add: check_even_parity_def flip_at_def)
qed

theorem flip_detected_witness:
  "2 < length (add_even_parity ''0110'')
   \<and> check_even_parity (flip_at (add_even_parity ''0110'') 2) = False"
proof -
  have h: "2 < length (add_even_parity ''0110'')"
    by (simp add: add_even_parity_def)
  show ?thesis using h flip_detected [OF h] by simp
qed

section \<open>Checksum: the worked example and the width check\<close>

text \<open>
  Claim C8. The checksum of \<open>"ABC"\<close> in 8-bit ASCII with 8-bit words is \<open>"00111001"\<close>:
  the words add up to \<open>0xC6\<close>, whose complement in 8 bits is \<open>0x39\<close>.
\<close>

theorem calculate_checksum_ABC_8:
  "calculate_checksum ''010000010100001001000011'' 8 = Inr ''00111001''"
  by code_simp

text \<open>
  Claim C4, as the source has it. A width that is not positive never yields a checksum,
  for any string: a width of 0 raises \<open>ZeroDivisionError\<close> at the modulo and a negative
  width raises \<open>ValueError\<close> at the shift. The source has no check of the width and no
  error of its own for it.
\<close>

theorem calculate_checksum_nonpositive:
  assumes "checksum_bits \<le> 0"
  shows "calculate_checksum data_bits checksum_bits
           = Inl (if checksum_bits = 0 then ZeroDivisionError else ValueError)"
proof (cases "checksum_bits = 0")
  case True
  then show ?thesis by (simp add: calculate_checksum_def)
next
  case False
  then have neg: "checksum_bits < 0" using assms by simp
  have "int (length xs) div checksum_bits \<le> 0" for xs :: string
    using neg by (simp add: div_nonneg_neg_le0)
  then have "nat (int (length xs) div checksum_bits) = 0" for xs :: string
    by simp
  then show ?thesis
    using neg False by (simp add: calculate_checksum_def Let_def)
qed

theorem calculate_checksum_nonpositive_witness:
  "(- 8 :: int) \<le> 0 \<and> calculate_checksum ''0101'' (- 8) = Inl ValueError"
proof -
  have h: "(- 8 :: int) \<le> 0" by simp
  show ?thesis using h calculate_checksum_nonpositive [OF h, of "''0101''"] by simp
qed

text \<open>
  Claim C4 as it is stated names an error \<open>InvalidWidth\<close>. The errors a caller gets
  for the widths 0 and \<open>-16\<close> are Python's own \<open>ZeroDivisionError\<close> and
  \<open>ValueError\<close>.
\<close>

theorem calculate_checksum_builtin_errors:
  "calculate_checksum ''0101'' 0 = Inl ZeroDivisionError
   \<and> calculate_checksum ''0101'' (- 16) = Inl ValueError"
  by code_simp

section \<open>Checksum: verification of an unmodified frame\<close>

text \<open>
  Claim C1, at the frame \<open>add_checksum\<close> builds for \<open>"ABC"\<close> with 8-bit words. The words
  of the frame add up, after the end-around carry, to \<open>0xFF\<close>, the all-ones word, and
  \<open>verify_checksum\<close> compares the sum with 0, so it returns \<open>False\<close>.
\<close>

theorem verify_checksum_rejects_ABC_8:
  "add_checksum ''010000010100001001000011'' 8 = Inr ''01000001010000100100001100111001''
   \<and> verify_checksum ''01000001010000100100001100111001'' 8 = Inr False"
  by code_simp

text \<open>
  Claim C3, at the frame \<open>add_checksum\<close> builds for \<open>"AB"\<close> with 16-bit words: the
  sum-to-zero verifier rejects the frame and the recompute-and-compare verifier accepts
  it.
\<close>

theorem verifiers_disagree_AB_16:
  "add_checksum ''0100000101000010'' 16 = Inr ''01000001010000101011111010111101''
   \<and> verify_checksum ''01000001010000101011111010111101'' 16 = Inr False
   \<and> verify_checksum_simple ''01000001010000101011111010111101'' 16
       = Inr (True, ''1011111010111101'', ''1011111010111101'')"
  by code_simp

section \<open>CRC-32: the division engine on bit strings\<close>

lemma poly_bits: "bin_digits CRC32_POLY = ''100000100110000010001110110110111''"
  unfolding CRC32_POLY_def by (simp add: bin_digits.simps)

lemma int_list_bits: "is_bits s \<Longrightarrow> int_list s = Inr (map bit_of_char s)"
  by (induction s) (auto simp: is_bits_def int_digit_def bit_of_char_def)

lemma bit_list_of_chars: "bit_list (map bit_of_char s)"
  by (induction s) (simp_all add: bit_list_def bit_of_char_def)

lemma char_of_48: "char_of (48::int) = CHR ''0''"
  by code_simp

lemma char_of_49: "char_of (49::int) = CHR ''1''"
  by code_simp

lemma py_str_bit: "x = 0 \<or> x = 1 \<Longrightarrow> py_str x = [char_of_bit x]"
  by (auto simp: py_str_def char_of_bit_def dec_digits.simps char_of_48 char_of_49)

lemma join_str_bits: "bit_list xs \<Longrightarrow> concat (map py_str xs) = map char_of_bit xs"
  by (induction xs) (auto simp: bit_list_def py_str_bit)

lemma is_bits_of_bits: "is_bits (map char_of_bit xs)"
  by (induction xs) (simp_all add: is_bits_def char_of_bit_def)

lemma bit_of_char_of_bit: "bit_list xs \<Longrightarrow> map bit_of_char (map char_of_bit xs) = xs"
  by (induction xs) (auto simp: bit_list_def bit_of_char_def char_of_bit_def)

lemma char_of_bit_of_char: "is_bits s \<Longrightarrow> map char_of_bit (map bit_of_char s) = s"
  by (induction s) (auto simp: is_bits_def bit_of_char_def char_of_bit_def)

lemma xor_window_prefix:
  assumes "i + m \<le> length data"
  shows "length (foldl (\<lambda>d j. d[i + j := d ! (i + j) XOR poly ! j]) data [0..<m]) = length data
    \<and> (\<forall>k<length data.
          foldl (\<lambda>d j. d[i + j := d ! (i + j) XOR poly ! j]) data [0..<m] ! k
            = (if i \<le> k \<and> k < i + m then data ! k XOR poly ! (k - i) else data ! k))"
  using assms
proof (induction m)
  case 0
  then show ?case by auto
next
  case (Suc m)
  then have IH: "length (foldl (\<lambda>d j. d[i + j := d ! (i + j) XOR poly ! j]) data [0..<m]) = length data"
     "\<And>k. k < length data \<Longrightarrow> foldl (\<lambda>d j. d[i + j := d ! (i + j) XOR poly ! j]) data [0..<m] ! k
            = (if i \<le> k \<and> k < i + m then data ! k XOR poly ! (k - i) else data ! k)"
    by auto
  have lt: "i + m < length data" using Suc.prems by simp
  show ?case
    using lt by (auto simp: IH nth_list_update)
qed

lemma length_xor_window:
  "i + length poly \<le> length data \<Longrightarrow> length (xor_window data poly i) = length data"
  unfolding xor_window_def using xor_window_prefix [of i "length poly" data poly] by simp

lemma nth_xor_window:
  "i + length poly \<le> length data \<Longrightarrow> k < length data \<Longrightarrow>
   xor_window data poly i ! k
     = (if i \<le> k \<and> k < i + length poly then data ! k XOR poly ! (k - i) else data ! k)"
  unfolding xor_window_def using xor_window_prefix [of i "length poly" data poly] by simp

lemma length_lxor: "length xs = length ys \<Longrightarrow> length (lxor xs ys) = length xs"
  by (simp add: lxor_def)

lemma nth_lxor: "length xs = length ys \<Longrightarrow> k < length xs \<Longrightarrow> lxor xs ys ! k = xs ! k XOR ys ! k"
  by (simp add: lxor_def)

lemma xor_window_lxor:
  assumes "length a = length b" and "i + length poly \<le> length a"
  shows "xor_window (lxor a b) poly i = lxor (xor_window a poly i) b"
proof (rule nth_equalityI)
  show "length (xor_window (lxor a b) poly i) = length (lxor (xor_window a poly i) b)"
    using assms by (simp add: length_xor_window length_lxor)
next
  fix k assume "k < length (xor_window (lxor a b) poly i)"
  then have k: "k < length a" using assms by (simp add: length_xor_window length_lxor)
  show "xor_window (lxor a b) poly i ! k = lxor (xor_window a poly i) b ! k"
    using assms k
    by (simp add: nth_xor_window length_xor_window length_lxor nth_lxor xor.assoc xor.commute xor.left_commute)
qed

lemma bit_list_xor_window:
  assumes "bit_list data" and "bit_list poly" and "i + length poly \<le> length data"
  shows "bit_list (xor_window data poly i)"
proof -
  have d: "\<And>k. k < length data \<Longrightarrow> data ! k = 0 \<or> data ! k = 1"
    using assms(1) by (simp add: bit_list_def list_all_length)
  have p: "\<And>k. k < length poly \<Longrightarrow> poly ! k = 0 \<or> poly ! k = 1"
    using assms(2) by (simp add: bit_list_def list_all_length)
  have x: "a XOR b = 0 \<or> a XOR b = 1" if "a = 0 \<or> a = 1" "b = 0 \<or> b = 1" for a b :: int
    using that by auto
  show ?thesis
    unfolding bit_list_def list_all_length
  proof (intro allI impI)
    fix k assume "k < length (xor_window data poly i)"
    then have k: "k < length data" using assms(3) by (simp add: length_xor_window)
    show "xor_window data poly i ! k = 0 \<or> xor_window data poly i ! k = 1"
    proof (cases "i \<le> k \<and> k < i + length poly")
      case True
      then have "k - i < length poly" by auto
      from x [OF d [OF k] p [OF this]] show ?thesis
        using True k assms(3) by (simp add: nth_xor_window)
    next
      case False
      then show ?thesis using d [OF k] k assms(3) by (auto simp: nth_xor_window)
    qed
  qed
qed

lemma crc_scan_total:
  assumes "\<forall>i\<in>set is. i + length poly \<le> length data \<and> i < length data"
  shows "\<exists>d. crc_scan poly data is = Inr d \<and> length d = length data
           \<and> (bit_list data \<and> bit_list poly \<longrightarrow> bit_list d)"
  using assms
proof (induction "is" arbitrary: data)
  case Nil
  then show ?case by simp
next
  case (Cons i rest)
  let ?d = "if data ! i = 1 then xor_window data poly i else data"
  have i: "i + length poly \<le> length data" "i < length data" using Cons.prems by auto
  have len: "length ?d = length data" using i by (simp add: length_xor_window)
  have "\<forall>j\<in>set rest. j + length poly \<le> length ?d \<and> j < length ?d"
    using Cons.prems len by simp
  from Cons.IH [OF this] obtain d where
    d: "crc_scan poly ?d rest = Inr d" "length d = length ?d"
       "bit_list ?d \<and> bit_list poly \<longrightarrow> bit_list d"
    by blast
  have "bit_list data \<and> bit_list poly \<longrightarrow> bit_list ?d"
    using i by (simp add: bit_list_xor_window)
  then show ?case using d i len by auto
qed

lemma crc_scan_lxor:
  assumes "length a = length b"
    and "\<forall>i\<in>set is. i + length poly \<le> length a \<and> i < length a \<and> b ! i = 0"
    and "crc_scan poly a is = Inr a'"
  shows "crc_scan poly (lxor a b) is = Inr (lxor a' b)"
  using assms
proof (induction "is" arbitrary: a)
  case Nil
  then show ?case by simp
next
  case (Cons i rest)
  let ?d = "if a ! i = 1 then xor_window a poly i else a"
  have i: "i + length poly \<le> length a" "i < length a" "b ! i = 0" using Cons.prems by auto
  have len: "length ?d = length b" using i Cons.prems(1) by (simp add: length_xor_window)
  have same: "lxor a b ! i = a ! i" using i Cons.prems(1) by (simp add: nth_lxor)
  have step: "(if lxor a b ! i = 1 then xor_window (lxor a b) poly i else lxor a b) = lxor ?d b"
    using same i Cons.prems(1) by (simp add: xor_window_lxor)
  have rest: "\<forall>j\<in>set rest. j + length poly \<le> length ?d \<and> j < length ?d \<and> b ! j = 0"
    using Cons.prems(2) len Cons.prems(1) by simp
  have "crc_scan poly ?d rest = Inr a'" using Cons.prems(3) i by simp
  from Cons.IH [OF len rest this] show ?case
    using i Cons.prems(1) step by (simp add: length_lxor)
qed


lemma is_bits_poly: "is_bits (bin_digits CRC32_POLY)"
  by (simp add: poly_bits is_bits_def)

lemma length_poly_bits: "length (bin_digits CRC32_POLY) = 33"
  by (simp add: poly_bits)

lemma length_poly_list: "length poly_list = 33"
  by (simp add: poly_list_def poly_bits)

lemma bit_list_poly_list: "bit_list poly_list"
  by (simp add: poly_list_def bit_list_of_chars)

lemma crc_scan_range_33: "crc_scan_range m 33 = [0..<m - 32]"
proof -
  have "nat (int m - 33 + 1) = m - 32" by simp
  then show ?thesis by (simp add: crc_scan_range_def)
qed

lemma py_slice_from_last_32: "py_slice_from d (- 32) = drop (length d - 32) d"
proof -
  have "nat (int (length d) - 32) = length d - 32" by simp
  then show ?thesis by (simp add: py_slice_from_def py_bound_def)
qed

lemma crc_division_engine_bits:
  assumes "is_bits s"
  shows "\<exists>d. crc_scan poly_list (map bit_of_char s) [0..<length s - 32] = Inr d
           \<and> length d = length s \<and> bit_list d
           \<and> crc_division_engine s (bin_digits CRC32_POLY)
               = Inr (map char_of_bit (drop (length s - 32) d))"
proof -
  let ?a = "map bit_of_char s"
  have "\<forall>i\<in>set [0..<length s - 32]. i + length poly_list \<le> length ?a \<and> i < length ?a"
    by (auto simp: length_poly_list)
  from crc_scan_total [OF this] obtain d where
    d: "crc_scan poly_list ?a [0..<length s - 32] = Inr d" "length d = length s" "bit_list d"
    using bit_list_of_chars bit_list_poly_list by auto
  have "bit_list (drop (length s - 32) d)"
    using d(3) by (simp add: bit_list_def list_all_iff) (meson in_set_dropD)
  then have "concat (map py_str (drop (length s - 32) d)) = map char_of_bit (drop (length s - 32) d)"
    by (rule join_str_bits)
  then have "crc_division_engine s (bin_digits CRC32_POLY)
      = Inr (map char_of_bit (drop (length s - 32) d))"
    using d(1,2) int_list_bits [OF assms] int_list_bits [OF is_bits_poly]
    by (simp add: crc_division_engine_def poly_list_def [symmetric] length_poly_list
        crc_scan_range_33 py_slice_from_last_32)
  then show ?thesis using d by blast
qed

lemma is_bits_append: "is_bits (xs @ ys) = (is_bits xs \<and> is_bits ys)"
  by (simp add: is_bits_def)

lemma is_bits_zeros: "is_bits (replicate n CHR ''0'')"
  by (simp add: is_bits_def list_all_iff)

text \<open>
  Claim C7. For every bit string \<open>data\<close>, \<open>generate_crc\<close> returns a bit string of
  exactly 32 characters, the degree of the 33-bit generator: the remainder is the last
  32 entries of the working buffer, one character each, so its leading zeros are kept.
\<close>

theorem generate_crc_32_bits:
  assumes "is_bits data"
  shows "\<exists>r. generate_crc data = Inr r \<and> length r = 32 \<and> is_bits r"
proof -
  let ?p = "data @ replicate 32 CHR ''0''"
  have "is_bits ?p" using assms by (simp add: is_bits_append is_bits_zeros)
  from crc_division_engine_bits [OF this] obtain d where
    d: "length d = length ?p"
       "crc_division_engine ?p (bin_digits CRC32_POLY) = Inr (map char_of_bit (drop (length ?p - 32) d))"
    by blast
  let ?r = "map char_of_bit (drop (length ?p - 32) d)"
  have len: "length ?r = 32" using d(1) by simp
  have "generate_crc data = Inr ?r"
    using d(2) len by (simp add: generate_crc_def length_poly_bits zfill_def)
  then show ?thesis using len is_bits_of_bits by blast
qed

theorem generate_crc_32_bits_witness:
  "is_bits ''1''
   \<and> (\<exists>r. generate_crc ''1'' = Inr r \<and> length r = 32 \<and> is_bits r)"
proof -
  have h: "is_bits ''1''" by (simp add: is_bits_def)
  show ?thesis using h generate_crc_32_bits [OF h] by simp
qed

lemma bits_value_zeros: "bits_value (replicate n CHR ''0'') = 0"
proof -
  have "foldl (\<lambda>acc c. 2 * acc + (if c = CHR ''1'' then 1 else 0)) (0::int) (replicate n CHR ''0'') = 0"
    by (induction n) simp_all
  then show ?thesis by (simp add: bits_value_def)
qed

lemma lxor_append:
  "length a1 = length b1 \<Longrightarrow> lxor (a1 @ a2) (b1 @ b2) = lxor a1 b1 @ lxor a2 b2"
  by (simp add: lxor_def)

lemma lxor_zeros_right: "lxor xs (replicate (length xs) 0) = xs"
  by (induction xs) (simp_all add: lxor_def)

lemma lxor_zeros_left: "lxor (replicate (length xs) 0) xs = xs"
  by (induction xs) (simp_all add: lxor_def)

lemma lxor_self: "lxor xs xs = replicate (length xs) 0"
  by (induction xs) (simp_all add: lxor_def)

lemma drop_lxor: "drop n (lxor xs ys) = lxor (drop n xs) (drop n ys)"
  by (simp add: lxor_def drop_map drop_zip)

lemma bit_of_char_zeros: "map bit_of_char (replicate n CHR ''0'') = replicate n 0"
  by (simp add: bit_of_char_def)

text \<open>
  Claim C2. For every bit string \<open>data\<close>, \<open>generate_crc\<close> returns a remainder, and
  \<open>check_crc\<close> of \<open>data\<close> followed by that remainder returns the integer 0. The
  first \<open>len(data)\<close> positions of the buffer evolve in the same way with the zero
  padding and with the remainder behind them, so the same windows are subtracted, and
  the last 32 positions end as the remainder XOR itself.
\<close>

theorem check_crc_generate_crc:
  assumes "is_bits data"
  shows "\<exists>r. generate_crc data = Inr r \<and> check_crc (data @ r) = Inr 0"
proof -
  let ?m = "length data"
  let ?D = "map bit_of_char data"
  let ?p = "data @ replicate 32 CHR ''0''"
  have bp: "is_bits ?p" using assms by (simp add: is_bits_append is_bits_zeros)
  from crc_division_engine_bits [OF bp] obtain a' where
    a': "crc_scan poly_list (map bit_of_char ?p) [0..<?m] = Inr a'"
        "length a' = ?m + 32" "bit_list a'"
        "crc_division_engine ?p (bin_digits CRC32_POLY) = Inr (map char_of_bit (drop ?m a'))"
    by auto
  let ?R = "drop ?m a'"
  let ?r = "map char_of_bit ?R"
  have lenR: "length ?R = 32" using a'(2) by simp
  have bitR: "bit_list ?R"
    using a'(3) by (simp add: bit_list_def list_all_iff) (meson in_set_dropD)
  have gen: "generate_crc data = Inr ?r"
    using a'(4) lenR by (simp add: generate_crc_def length_poly_bits zfill_def)
  let ?f = "data @ ?r"
  have bf: "is_bits ?f" using assms by (simp add: is_bits_append is_bits_of_bits)
  let ?B = "replicate ?m 0 @ ?R"
  have pad: "map bit_of_char ?p = ?D @ replicate (length ?R) 0"
    using lenR by (simp add: bit_of_char_def)
  have frame: "map bit_of_char ?f = lxor (map bit_of_char ?p) ?B"
  proof -
    have "lxor (map bit_of_char ?p) ?B
        = lxor ?D (replicate (length ?D) 0) @ lxor (replicate (length ?R) 0) ?R"
      unfolding pad by (simp add: lxor_append)
    also have "\<dots> = ?D @ ?R"
      by (simp only: lxor_zeros_right lxor_zeros_left)
    also have "\<dots> = map bit_of_char ?f"
      using bit_of_char_of_bit [OF bitR] by simp
    finally show ?thesis by simp
  qed
  have side: "\<forall>i\<in>set [0..<?m]. i + length poly_list \<le> length (map bit_of_char ?p)
      \<and> i < length (map bit_of_char ?p) \<and> ?B ! i = 0"
    by (auto simp: length_poly_list nth_append)
  have lenB: "length (map bit_of_char ?p) = length ?B" using lenR by simp
  have scan: "crc_scan poly_list (map bit_of_char ?f) [0..<?m] = Inr (lxor a' ?B)"
    unfolding frame by (rule crc_scan_lxor [OF lenB side a'(1)])
  from crc_division_engine_bits [OF bf] obtain d where
    d: "crc_scan poly_list (map bit_of_char ?f) [0..<length ?f - 32] = Inr d"
       "crc_division_engine ?f (bin_digits CRC32_POLY) = Inr (map char_of_bit (drop (length ?f - 32) d))"
    by blast
  have lf: "length ?f - 32 = ?m" using lenR by simp
  have "Inr d = (Inr (lxor a' ?B) :: error + int list)"
    using d(1) scan unfolding lf by (simp only:)
  then have dd: "d = lxor a' ?B" by simp
  have eng: "crc_division_engine ?f (bin_digits CRC32_POLY) = Inr (map char_of_bit (drop ?m d))"
    using d(2) unfolding lf .
  from dd
  have "drop ?m d = lxor ?R ?R" by (simp add: drop_lxor)
  then have "drop ?m d = replicate 32 0" using lenR by (simp add: lxor_self)
  then have "crc_division_engine ?f (bin_digits CRC32_POLY) = Inr (replicate 32 CHR ''0'')"
    using eng by (simp add: char_of_bit_def)
  then have "check_crc ?f = Inr 0"
    by (simp add: check_crc_def int_base2_def is_bits_zeros bits_value_zeros)
  then show ?thesis using gen by blast
qed

theorem check_crc_generate_crc_witness:
  "is_bits ''010000010100001001000011''
   \<and> (\<exists>r. generate_crc ''010000010100001001000011'' = Inr r
          \<and> check_crc (''010000010100001001000011'' @ r) = Inr 0)"
proof -
  have h: "is_bits ''010000010100001001000011''" by (simp add: is_bits_def)
  show ?thesis using h check_crc_generate_crc [OF h] by simp
qed

text \<open>
  Claim C10. For every bit string \<open>frame\<close> shorter than the 33-bit generator, the
  index range of the division loop is empty, so no window is XORed and the engine
  returns the frame as it is; \<open>check_crc\<close> then returns the value of the frame read in
  binary when the frame is not empty, and raises \<open>ValueError\<close> (from \<open>int('', 2)\<close>) when
  it is empty.
\<close>

theorem check_crc_short_frame:
  assumes "is_bits frame" and "length frame < 33"
  shows "crc_scan_range (length frame) (length (bin_digits CRC32_POLY)) = []
     \<and> crc_division_engine frame (bin_digits CRC32_POLY) = Inr frame
     \<and> check_crc frame = (if frame = [] then Inl ValueError else Inr (bits_value frame))"
proof -
  have r: "crc_scan_range (length frame) (length (bin_digits CRC32_POLY)) = []"
    using assms(2) by (simp add: length_poly_bits crc_scan_range_33)
  from crc_division_engine_bits [OF assms(1)] obtain d where
    d: "crc_scan poly_list (map bit_of_char frame) [0..<length frame - 32] = Inr d"
       "crc_division_engine frame (bin_digits CRC32_POLY)
          = Inr (map char_of_bit (drop (length frame - 32) d))"
    by blast
  have "length frame - 32 = 0" using assms(2) by simp
  then have "d = map bit_of_char frame" using d(1) by simp
  moreover have "map char_of_bit (map bit_of_char frame) = frame"
    using assms(1) by (rule char_of_bit_of_char)
  ultimately have e: "crc_division_engine frame (bin_digits CRC32_POLY) = Inr frame"
    using d(2) \<open>length frame - 32 = 0\<close> by (simp del: map_map)
  then have "check_crc frame = (if frame = [] then Inl ValueError else Inr (bits_value frame))"
    using assms(1) by (simp add: check_crc_def int_base2_def)
  then show ?thesis using r e by simp
qed

theorem check_crc_short_frame_witness:
  "is_bits ''101'' \<and> length ''101'' < 33
   \<and> crc_scan_range (length ''101'') (length (bin_digits CRC32_POLY)) = []
   \<and> crc_division_engine ''101'' (bin_digits CRC32_POLY) = Inr ''101''
   \<and> check_crc ''101'' = Inr 5
   \<and> check_crc [] = Inl ValueError"
proof -
  have h: "is_bits ''101''" "is_bits []" by (simp_all add: is_bits_def)
  have l: "length ''101'' < 33" "length ([] :: string) < 33" by simp_all
  have v: "bits_value ''101'' = 5" by (simp add: bits_value_def)
  show ?thesis
    using h l check_crc_short_frame [OF h(1) l(1)] check_crc_short_frame [OF h(2) l(2)] v
    by simp
qed

section \<open>Bits to text: the source against the specification\<close>

lemma foldl_bits_value:
  "foldl (\<lambda>acc c. 2 * acc + (if c = CHR ''1'' then 1 else 0)) a g
     = a * 2 ^ length g + int (msb_value g)"
  by (induction g arbitrary: a) (simp_all add: algebra_simps)

lemma bits_value_msb: "bits_value g = int (msb_value g)"
  by (simp add: bits_value_def foldl_bits_value)

lemma decode_chars_bits:
  assumes "list_all (\<lambda>g. g \<noteq> [] \<and> is_bits g) gs"
  shows "decode_chars gs
           = Inr (map (\<lambda>g. char_of (msb_value g)) (filter (\<lambda>g. msb_value g \<noteq> 0) gs))"
  using assms
  by (induction gs) (simp_all add: int_base2_def bits_value_msb)

lemma groups8_index:
  "length t = 8 * q \<Longrightarrow> map (\<lambda>k. take 8 (drop (8 * k) t)) [0..<q] = groups8 t"
proof (induction q arbitrary: t)
  case 0
  then show ?case by (simp add: groups8.simps)
next
  case (Suc q)
  then have ne: "t \<noteq> []" by auto
  have len: "length (drop 8 t) = 8 * q" using Suc.prems by simp
  have "map (\<lambda>k. take 8 (drop (8 * k) t)) [0..<Suc q]
      = take 8 t # map (\<lambda>k. take 8 (drop (8 * k) t)) (map Suc [0..<q])"
    by (simp only: upt_conv_Cons [of 0 "Suc q"] map_Suc_upt [symmetric]) simp
  also have "map (\<lambda>k. take 8 (drop (8 * k) t)) (map Suc [0..<q])
      = map (\<lambda>k. take 8 (drop (8 * k) (drop 8 t))) [0..<q]"
    by (simp add: add.commute)
  also have "\<dots> = groups8 (drop 8 t)" by (rule Suc.IH [OF len])
  finally show ?case using ne by (simp add: groups8.simps [of t])
qed

lemma is_bits_sub: "is_bits t \<Longrightarrow> set g \<subseteq> set t \<Longrightarrow> is_bits g"
  by (auto simp: is_bits_def list_all_iff)

text \<open>
  Claim C9. For every bit string \<open>s\<close>, \<open>binary_to_text\<close> returns what the three steps
  of the specification give: the trailing partial group is discarded, every remaining
  group of 8 bits is read most significant bit first, and the groups of value zero are
  left out of the text.
\<close>

theorem binary_to_text_decode_groups:
  assumes "is_bits s"
  shows "binary_to_text s = Inr (decode_groups s)"
proof -
  let ?q = "length s div 8"
  let ?t = "whole_bytes s"
  have cut: "length s - length s mod 8 = 8 * ?q"
    by (simp add: minus_mod_eq_mult_div)
  have trunc: "(if length s mod 8 \<noteq> 0
                then py_slice_to s (int (length s) - int (length s mod 8)) else s) = ?t"
  proof -
    have "nat (int (length s) - int (length s mod 8)) = length s - length s mod 8"
      by simp
    then show ?thesis
      by (simp add: py_slice_to_def py_bound_def whole_bytes_def)
  qed
  have len: "length ?t = 8 * ?q" using cut by (simp add: whole_bytes_def)
  have r: "range8 (length ?t) = map (\<lambda>k. 8 * k) [0..<?q]"
    unfolding len by (simp add: range8_def)
  have sl: "py_slice ?t (int (8 * k)) (int (8 * k) + 8) = take 8 (drop (8 * k) ?t)"
    if "k < ?q" for k
  proof -
    have "nat (int (8 * k) + 8) = 8 * k + 8" "nat (8 * int k) = 8 * k" by simp_all
    then show ?thesis
      using that len by (simp add: py_slice_def py_bound_def Let_def)
  qed
  have chars: "map (\<lambda>i. py_slice ?t (int i) (int i + 8)) (range8 (length ?t)) = groups8 ?t"
  proof -
    have "map (\<lambda>i. py_slice ?t (int i) (int i + 8)) (range8 (length ?t))
        = map (\<lambda>k. take 8 (drop (8 * k) ?t)) [0..<?q]"
      unfolding r using sl by (simp add: comp_def)
    then show ?thesis using groups8_index [OF len] by simp
  qed
  have bt: "is_bits ?t"
    using assms by (rule is_bits_sub) (simp add: whole_bytes_def set_take_subset)
  have "list_all (\<lambda>g. g \<noteq> [] \<and> is_bits g) (map (\<lambda>k. take 8 (drop (8 * k) ?t)) [0..<?q])"
  proof -
    have "take 8 (drop (8 * k) ?t) \<noteq> [] \<and> is_bits (take 8 (drop (8 * k) ?t))" if "k < ?q" for k
    proof -
      have "set (take 8 (drop (8 * k) ?t)) \<subseteq> set ?t"
        by (meson set_take_subset set_drop_subset subset_trans)
      moreover have "length (take 8 (drop (8 * k) ?t)) = 8" using that len by simp
      ultimately show ?thesis using bt is_bits_sub by fastforce
    qed
    then show ?thesis by (simp add: list_all_iff)
  qed
  then have "list_all (\<lambda>g. g \<noteq> [] \<and> is_bits g) (groups8 ?t)"
    using groups8_index [OF len] by simp
  from decode_chars_bits [OF this] show ?thesis
    unfolding binary_to_text_def Let_def trunc chars decode_groups_def .
qed

theorem binary_to_text_decode_groups_witness:
  "is_bits ''0100000101000010000000000100001101''
   \<and> binary_to_text ''0100000101000010000000000100001101''
       = Inr (decode_groups ''0100000101000010000000000100001101'')
   \<and> decode_groups ''0100000101000010000000000100001101'' = ''ABC''"
proof -
  have h: "is_bits ''0100000101000010000000000100001101''" by (simp add: is_bits_def)
  have d: "decode_groups ''0100000101000010000000000100001101'' = ''ABC''" by code_simp
  show ?thesis using h binary_to_text_decode_groups [OF h] d by simp
qed

section \<open>Checksum: the verifiers on every frame that \<open>add_checksum\<close> builds\<close>

lemma msb_value_pos: "CHR ''1'' \<in> set g \<Longrightarrow> 0 < msb_value g"
  by (induction g) auto

lemma msb_value_zeros: "CHR ''1'' \<notin> set g \<Longrightarrow> msb_value g = 0"
  by (induction g) auto

lemma py_slice_word:
  assumes "(i + 1) * n \<le> length s"
  shows "py_slice s (int i * int n) (int i * int n + int n) = take n (drop (i * n) s)"
proof -
  have a: "nat (int i * int n) = i * n" by (simp add: nat_mult_distrib)
  have b: "nat (int i * int n + int n) = i * n + n" by (simp add: nat_add_distrib nat_mult_distrib)
  have c: "i * n \<le> length s" "i * n + n \<le> length s" using assms by simp_all
  have d: "\<not> int i * int n < 0" "\<not> int i * int n + int n < 0"
    by (simp_all add: not_less)
  show ?thesis
    using c by (simp add: py_slice_def py_bound_def Let_def a b d)
qed

lemma sum_words_bits:
  assumes "is_bits s" and "0 < n" and "\<forall>i\<in>set is. (i + 1) * n \<le> length s"
  shows "sum_words s (int n) is t0
           = Inr (t0 + int (sum_list (map (\<lambda>i. msb_value (take n (drop (i * n) s))) is)))"
  using assms(3)
proof (induction "is" arbitrary: t0)
  case Nil
  then show ?case by simp
next
  case (Cons i rest)
  let ?g = "take n (drop (i * n) s)"
  have i: "(i + 1) * n \<le> length s" using Cons.prems by simp
  then have "length ?g = n" by simp
  then have ne: "?g \<noteq> []" using assms(2) by auto
  have "set ?g \<subseteq> set s" by (meson set_take_subset set_drop_subset subset_trans)
  then have bg: "is_bits ?g" using assms(1) by (rule is_bits_sub [rotated])
  have w: "int_base2 (py_slice s (int i * int n) (int i * int n + int n)) = Inr (int (msb_value ?g))"
    using ne bg by (simp add: py_slice_word [OF i] int_base2_def bits_value_msb)
  have "\<forall>j\<in>set rest. (j + 1) * n \<le> length s" using Cons.prems by simp
  from Cons.IH [OF this] show ?case
    using w by (simp add: Let_def)
qed

lemma fold_carry_range:
  assumes "0 < n" and "0 \<le> t"
  shows "0 \<le> fold_carry n t \<and> fold_carry n t \<le> 2 ^ n - 1 \<and> (fold_carry n t = 0 \<longleftrightarrow> t = 0)"
  using assms
proof (induction n t rule: fold_carry.induct)
  case (1 n t)
  show ?case
  proof (cases "t > push_bit n 1 - 1")
    case True
    let ?t = "(t AND (push_bit n 1 - 1)) + drop_bit n t"
    have ge: "(2::int) ^ n \<le> t" using True by (simp add: push_bit_eq_mult)
    then have q: "0 < t div 2 ^ n" by (simp add: pos_imp_zdiv_pos_iff)
    have r: "0 \<le> t mod 2 ^ n" by simp
    have pos: "0 < ?t"
      unfolding and_max_value using q by (simp add: drop_bit_eq_div add_nonneg_pos)
    have "0 \<le> fold_carry n ?t \<and> fold_carry n ?t \<le> 2 ^ n - 1 \<and> (fold_carry n ?t = 0 \<longleftrightarrow> ?t = 0)"
      using "1.IH" [OF refl _ refl] True "1.prems" pos by simp
    moreover have "fold_carry n t = fold_carry n ?t"
      using True "1.prems"(1) by (subst fold_carry.simps) (simp add: Let_def)
    moreover have "t \<noteq> 0" using ge by auto
    ultimately show ?thesis using pos by simp
  next
    case False
    then have "fold_carry n t = t"
      by (subst fold_carry.simps) (simp add: Let_def)
    then show ?thesis using False "1.prems" by (simp add: push_bit_eq_mult)
  qed
qed

lemma is_bits_bin_digits: "is_bits (bin_digits v)"
proof (induction v rule: bin_digits.induct)
  case (1 n)
  show ?case
  proof (cases "n < 2")
    case True
    then show ?thesis by (subst bin_digits.simps) (simp add: is_bits_def)
  next
    case False
    then show ?thesis using 1 by (subst bin_digits.simps) (simp add: is_bits_append, simp add: is_bits_def)
  qed
qed

lemma length_bin_digits: "0 < w \<Longrightarrow> v < 2 ^ w \<Longrightarrow> length (bin_digits v) \<le> w"
proof (induction v arbitrary: w rule: bin_digits.induct)
  case (1 n)
  show ?case
  proof (cases "n < 2")
    case True
    then show ?thesis using "1.prems" by (subst bin_digits.simps) simp
  next
    case False
    then obtain k where k: "w = Suc k" using "1.prems" by (cases w) auto
    have "0 < k"
    proof (rule ccontr)
      assume "\<not> 0 < k"
      then have "w = 1" using k by simp
      then show False using "1.prems" False by simp
    qed
    moreover have "n div 2 < 2 ^ k" using "1.prems"(2) k by simp
    ultimately have "length (bin_digits (n div 2)) \<le> k" using "1.IH" False by simp
    then show ?thesis using False k by (subst bin_digits.simps) simp
  qed
qed

lemma bin_digits_ones: "0 < w \<Longrightarrow> bin_digits (2 ^ w - 1) = replicate w CHR ''1''"
proof (induction w)
  case 0
  then show ?case by simp
next
  case (Suc w)
  show ?case
  proof (cases "w = 0")
    case True
    then show ?thesis by (simp add: bin_digits.simps)
  next
    case False
    have two: "(2::int) \<le> 2 ^ w" using False by (cases w) auto
    have d: "((2::int) ^ Suc w - 1) div 2 = 2 ^ w - 1" by simp
    have m: "((2::int) ^ Suc w - 1) mod 2 = 1" by (simp add: mod_2_eq_odd)
    have nl: "\<not> (2::int) ^ Suc w - 1 < 2" using two by simp
    have "bin_digits (2 ^ Suc w - 1) = bin_digits (2 ^ w - 1) @ [CHR ''1'']"
      using nl by (subst bin_digits.simps) (simp only: d m if_False if_True simp_thms)
    then show ?thesis using Suc.IH False by (simp add: replicate_append_same)
  qed
qed


lemma complement_range: "0 \<le> (NOT f) AND (push_bit n 1 - 1 :: int) \<and> (NOT f) AND (push_bit n 1 - 1 :: int) < 2 ^ n"
  unfolding and_max_value by simp

lemma complement_zero: "(NOT 0) AND (push_bit n 1 - 1 :: int) = 2 ^ n - 1"
  unfolding and_max_value by (simp add: zmod_minus1)

lemma format_0b_bits:
  assumes "0 < n" and "0 \<le> v" and "v < 2 ^ n"
  shows "length (format_0b v n) = n \<and> is_bits (format_0b v n)"
proof -
  have "length (bin_digits v) \<le> n" using assms by (simp add: length_bin_digits)
  then show ?thesis
    using assms(2) by (simp add: format_0b_def is_bits_append is_bits_bin_digits is_bits_zeros)
qed

lemma calculate_checksum_bits:
  assumes "is_bits data" and "0 < n"
  shows "\<exists>cs. calculate_checksum data (int n) = Inr cs \<and> length cs = n \<and> is_bits cs
            \<and> (CHR ''1'' \<in> set data \<or> cs = replicate n CHR ''1'')"
proof -
  define d where "d =
    (if int (length data) mod int n \<noteq> 0
     then data @ replicate (nat (int n - int (length data) mod int n)) CHR ''0''
     else data)"
  define k where "k = length d div n"
  define S where "S = sum_list (map (\<lambda>i. msb_value (take n (drop (i * n) d))) [0..<k])"
  define f where "f = fold_carry n (int S)"
  define v where "v = (NOT f) AND (push_bit n 1 - 1 :: int)"
  have bd: "is_bits d" using assms(1) by (simp add: d_def is_bits_append is_bits_zeros)
  have nk: "nat (int (length d) div int n) = k"
    by (simp add: k_def zdiv_int [symmetric])
  have "\<forall>i\<in>set [0..<k]. (i + 1) * n \<le> length d"
  proof
    fix i assume "i \<in> set [0..<k]"
    then have "i + 1 \<le> k" by simp
    then have "(i + 1) * n \<le> k * n" by (rule mult_le_mono1)
    also have "\<dots> \<le> length d" by (simp add: k_def)
    finally show "(i + 1) * n \<le> length d" .
  qed
  from sum_words_bits [OF bd assms(2) this, of 0]
  have sw: "sum_words d (int n) [0..<k] 0 = Inr (int S)" by (simp add: S_def)
  have v: "0 \<le> v" "v < 2 ^ n" using complement_range [of f n] by (simp_all add: v_def)
  have res: "calculate_checksum data (int n) = Inr (format_0b v n)"
    unfolding calculate_checksum_def Let_def d_def [symmetric] nk sw
    using assms(2) by (simp add: f_def v_def)
  have zero: "format_0b v n = replicate n CHR ''1''" if "CHR ''1'' \<notin> set data"
  proof -
    have "CHR ''1'' \<notin> set d" using that by (simp add: d_def)
    then have "CHR ''1'' \<notin> set (take n (drop (i * n) d))" for i
      by (meson in_set_takeD in_set_dropD)
    then have "S = 0" by (simp add: S_def msb_value_zeros)
    then have "f = 0" using fold_carry_range [OF assms(2), of 0] by (simp add: f_def)
    then have "v = 2 ^ n - 1" by (simp add: v_def complement_zero)
    moreover have "\<not> (2::int) ^ n < 1" by (simp add: not_less)
    ultimately show ?thesis
      using assms(2) by (simp add: format_0b_def bin_digits_ones)
  qed
  show ?thesis
    using res format_0b_bits [OF assms(2) v] zero by auto
qed

lemma nth_word:
  "i * n + n \<le> length f \<Longrightarrow> j < n \<Longrightarrow> take n (drop (i * n) f) ! j = f ! (i * n + j)"
  by simp

text \<open>
  What the two verifiers return on the frame of any bit string, for any positive
  width: the words of the frame hold a \<open>'1'\<close> (in the data, or else in the checksum,
  which is all ones for data without a \<open>'1'\<close>), so their sum is positive and stays
  positive under the end-around carry; \<open>verify_checksum\<close> compares it with 0. The
  recomputed checksum equals the received one, which is what \<open>verify_checksum_simple\<close>
  compares. The two evaluations of the section on an unmodified frame are instances.
\<close>

lemma verify_checksum_on_add_checksum:
  assumes "is_bits data" and "0 < checksum_bits"
  shows "\<exists>frame c. add_checksum data checksum_bits = Inr frame
           \<and> verify_checksum frame checksum_bits = Inr False
           \<and> verify_checksum_simple frame checksum_bits = Inr (True, c, c)"
proof -
  obtain n where n: "checksum_bits = int n" "0 < n"
    using assms(2) by (metis pos_int_cases)
  from calculate_checksum_bits [OF assms(1) n(2)] obtain cs where
    cs: "calculate_checksum data (int n) = Inr cs" "length cs = n" "is_bits cs"
        "CHR ''1'' \<in> set data \<or> cs = replicate n CHR ''1''"
    by blast
  define frame where "frame = data @ cs"
  have add: "add_checksum data (int n) = Inr frame"
    using cs(1) by (simp add: add_checksum_def frame_def)
  have lf: "length frame = length data + n" by (simp add: frame_def cs(2))
  have b: "py_bound (length frame) (- int n) = length data"
    using n(2) by (simp add: py_bound_def lf)
  have to: "py_slice_to frame (- int n) = data"
    unfolding py_slice_to_def b by (simp add: frame_def)
  have fr: "py_slice_from frame (- int n) = cs"
    unfolding py_slice_from_def b by (simp add: frame_def)
  have simple: "verify_checksum_simple frame (int n) = Inr (True, cs, cs)"
    by (simp add: verify_checksum_simple_def to fr cs(1))
  define k where "k = length frame div n"
  define S where "S = sum_list (map (\<lambda>i. msb_value (take n (drop (i * n) frame))) [0..<k])"
  have bf: "is_bits frame" using assms(1) cs(3) by (simp add: is_bits_append frame_def)
  have nk: "nat (int (length frame) div int n) = k"
    unfolding k_def by (simp only: zdiv_int [symmetric] nat_int)
  have kn: "k * n \<le> length frame" by (simp add: k_def)
  have "\<forall>i\<in>set [0..<k]. (i + 1) * n \<le> length frame"
  proof
    fix i assume "i \<in> set [0..<k]"
    then have "i + 1 \<le> k" by simp
    then have "(i + 1) * n \<le> k * n" by (rule mult_le_mono1)
    then show "(i + 1) * n \<le> length frame" using kn by linarith
  qed
  from sum_words_bits [OF bf n(2) this, of 0]
  have sw: "sum_words frame (int n) [0..<k] 0 = Inr (int S)" by (simp add: S_def)
  obtain p where p: "p \<le> length data" "frame ! p = CHR ''1''"
  proof (cases "CHR ''1'' \<in> set data")
    case True
    then obtain p where "p < length data" "data ! p = CHR ''1''" by (meson in_set_conv_nth)
    then have "p \<le> length data" "frame ! p = CHR ''1''" by (simp_all add: nth_append frame_def)
    then show ?thesis by (rule that)
  next
    case False
    then have "cs = replicate n CHR ''1''" using cs(4) by simp
    then have "frame ! length data = CHR ''1''" using n(2) by (simp add: nth_append frame_def)
    then show ?thesis using that by blast
  qed
  let ?i = "p div n"
  have k: "k = length data div n + 1" using n(2) by (simp add: k_def lf div_add_self2)
  have ik: "?i < k" using p(1) k by (simp add: div_le_mono less_Suc_eq_le)
  then have "?i + 1 \<le> k" by simp
  then have "(?i + 1) * n \<le> k * n" by (rule mult_le_mono1)
  then have il: "?i * n + n \<le> length frame" using kn by simp
  let ?g = "take n (drop (?i * n) frame)"
  have pm: "p mod n < n" using n(2) by simp
  have "?g ! (p mod n) = frame ! (?i * n + p mod n)"
    using il pm by (rule nth_word)
  moreover have "?i * n + p mod n = p" by simp
  ultimately have "?g ! (p mod n) = CHR ''1''" using p(2) by (simp only:)
  moreover have "p mod n < length ?g" using il pm by simp
  ultimately have "CHR ''1'' \<in> set ?g" by (metis nth_mem)
  then have "0 < msb_value ?g" by (rule msb_value_pos)
  moreover have "msb_value ?g \<in> set (map (\<lambda>i. msb_value (take n (drop (i * n) frame))) [0..<k])"
    using ik by auto
  then have "msb_value ?g \<le> S" unfolding S_def by (intro member_le_sum_list) simp_all
  ultimately have "int S \<noteq> 0" by simp
  then have "fold_carry n (int S) \<noteq> 0"
    using fold_carry_range [OF n(2), of "int S"] by simp
  then have "verify_checksum frame (int n) = Inr False"
    using sw by (simp add: verify_checksum_def Let_def to cs(1) nk)
  then show ?thesis using add simple n(1) by blast
qed

end
